theory Spec2Isabelle
  imports Main
begin

section \<open>The data of \<^verbatim>\<open>src/lib/mongodb.ts\<close>\<close>

text \<open>
  A value of type \<^verbatim>\<open>typeof mongoose\<close> is an object; only its identity matters here, so a
  handle is a number naming the object. JavaScript's \<^verbatim>\<open>null\<close> is \<open>None\<close>. Promises, cache
  objects and calls of \<^verbatim>\<open>connectDB\<close> are named by their position in the lists of the process
  state, so a newly created one never coincides with an older one.
\<close>

type_synonym handle = nat

datatype error = Error string

record MongooseCache =
  conn :: "handle option"
  promise :: "nat option"

record options =
  bufferCommands :: bool

text \<open>The module-level bindings that exist once the module has been evaluated.\<close>

record mongodb_module =
  MONGODB_URI :: string
  cached :: nat

datatype promise_state = Pending | Fulfilled handle | Rejected error

text \<open>
  A call of the async function \<^verbatim>\<open>connectDB\<close> is suspended at its \<^verbatim>\<open>await\<close> on a promise, or
  its returned promise is resolved with the value of the \<^verbatim>\<open>return\<close> statement (a handle or
  \<^verbatim>\<open>null\<close>), or rejected with the thrown value.
\<close>

datatype task = Suspended mongodb_module nat | Resolved "handle option" | Threw error

record world =
  heap :: "MongooseCache list"
  global_mongoose :: "nat option"
  promises :: "promise_state list"
  connect_calls :: "(string \<times> options) list"
  tasks :: "task list"

definition fresh_process :: world where
  "fresh_process =
     \<lparr>heap = [], global_mongoose = None, promises = [], connect_calls = [], tasks = []\<rparr>"

definition lookup :: "'a list \<Rightarrow> nat \<Rightarrow> 'a option" where
  "lookup xs i = (if i < length xs then Some (xs ! i) else None)"

section \<open>Module evaluation (lines 16 to 32)\<close>

definition missing_uri_message :: string where
  "missing_uri_message = ''Please define the MONGODB_URI environment variable inside .env.local''"

text \<open>
  \<^verbatim>\<open>process.env.MONGODB_URI\<close> is \<^verbatim>\<open>undefined\<close> (\<open>None\<close>) or a string; \<^verbatim>\<open>!MONGODB_URI\<close> holds for
  \<^verbatim>\<open>undefined\<close> and for the empty string. The \<^verbatim>\<open>throw\<close> comes before every other effect of the
  module, so the state is returned as it was. Otherwise \<^verbatim>\<open>cached\<close> is the object in
  \<^verbatim>\<open>global.mongoose\<close> when there is one and a new object if not, and \<^verbatim>\<open>global.mongoose\<close> is
  assigned when it was unset.
\<close>

definition module_init :: "string option \<Rightarrow> world \<Rightarrow> (error + mongodb_module) \<times> world" where
  "module_init env_MONGODB_URI w =
     (case env_MONGODB_URI of
        None \<Rightarrow> (Inl (Error missing_uri_message), w)
      | Some uri \<Rightarrow>
          if uri = [] then (Inl (Error missing_uri_message), w)
          else
            let (c, w1) =
                  (case global_mongoose w of
                     Some r \<Rightarrow> (r, w)
                   | None \<Rightarrow>
                       (length (heap w), w\<lparr>heap := heap w @ [\<lparr>conn = None, promise = None\<rparr>]\<rparr>));
                w2 = (if global_mongoose w1 = None then w1\<lparr>global_mongoose := Some c\<rparr> else w1)
            in (Inr \<lparr>MONGODB_URI = uri, cached = c\<rparr>, w2))"

section \<open>The driver\<close>

text \<open>
  \<^verbatim>\<open>mongoose.connect(uri, options)\<close> belongs to the driver. What the process state keeps of it
  is the list of its invocations with their arguments, and the promise it returns, pending
  until the driver settles it.
\<close>

definition mongoose_connect :: "string \<Rightarrow> options \<Rightarrow> world \<Rightarrow> nat \<times> world" where
  "mongoose_connect uri opts w =
     (length (promises w),
      w\<lparr>connect_calls := connect_calls w @ [(uri, opts)], promises := promises w @ [Pending]\<rparr>)"

text \<open>The callback of \<^verbatim>\<open>.then\<close> on line 54.\<close>

definition then_callback :: "handle \<Rightarrow> handle" where
  "then_callback mongooseInstance = mongooseInstance"

text \<open>
  The driver settles a pending attempt with an error or with a handle. The promise stored in
  the cache is the one \<^verbatim>\<open>.then\<close> returns: it is fulfilled with the callback's result, and a
  rejection passes through it unchanged since no rejection handler is given.
\<close>

definition settle :: "nat \<Rightarrow> error + handle \<Rightarrow> world \<Rightarrow> world option" where
  "settle p r w =
     (case lookup (promises w) p of
        Some Pending \<Rightarrow>
          Some (w\<lparr>promises := (promises w)
                   [p := (case r of Inl e \<Rightarrow> Rejected e | Inr v \<Rightarrow> Fulfilled (then_callback v))]\<rparr>)
      | _ \<Rightarrow> None)"

section \<open>\<^verbatim>\<open>connectDB\<close> (lines 41 to 69)\<close>

text \<open>
  The part of a call that runs before the \<^verbatim>\<open>await\<close> of line 61: the early return of line 44,
  or the creation of the promise when there is none (lines 48 to 57) followed by suspension
  on \<^verbatim>\<open>cached.promise\<close>. A handle and a promise are objects, hence truthy, so the two tests
  are tests for \<^verbatim>\<open>null\<close>. The result is \<open>None\<close> only when the module's \<^verbatim>\<open>cached\<close> names no
  object of the heap, which no evaluated module does.
\<close>

definition connectDB :: "mongodb_module \<Rightarrow> world \<Rightarrow> (task \<times> world) option" where
  "connectDB m w =
     (case lookup (heap w) (cached m) of
        None \<Rightarrow> None
      | Some c \<Rightarrow>
          (case conn c of
             Some h \<Rightarrow> Some (Resolved (conn c), w)
           | None \<Rightarrow>
               (case promise c of
                  Some p \<Rightarrow> Some (Suspended m p, w)
                | None \<Rightarrow>
                    let opts = \<lparr>bufferCommands = False\<rparr>;
                        (p, w1) = mongoose_connect (MONGODB_URI m) opts w;
                        w2 = w1\<lparr>heap := (heap w1)[cached m := c\<lparr>promise := Some p\<rparr>]\<rparr>
                    in Some (Suspended m p, w2))))"

text \<open>
  The part of a call that runs when it resumes from the \<^verbatim>\<open>await\<close>, which happens once the
  awaited promise is settled. Fulfilled with \<open>v\<close>: \<^verbatim>\<open>cached.conn = v\<close>, then
  \<^verbatim>\<open>return cached.conn\<close> reads the field back. Rejected with \<open>e\<close>: \<^verbatim>\<open>cached.promise = null\<close>,
  then \<^verbatim>\<open>throw error\<close>.
\<close>

definition connectDB_resume :: "mongodb_module \<Rightarrow> nat \<Rightarrow> world \<Rightarrow> (task \<times> world) option" where
  "connectDB_resume m p w =
     (case lookup (promises w) p of
        Some (Fulfilled v) \<Rightarrow>
          (case lookup (heap w) (cached m) of
             None \<Rightarrow> None
           | Some c \<Rightarrow>
               let w1 = w\<lparr>heap := (heap w)[cached m := c\<lparr>conn := Some v\<rparr>]\<rparr>
               in (case lookup (heap w1) (cached m) of
                     None \<Rightarrow> None
                   | Some c1 \<Rightarrow> Some (Resolved (conn c1), w1)))
      | Some (Rejected e) \<Rightarrow>
          (case lookup (heap w) (cached m) of
             None \<Rightarrow> None
           | Some c \<Rightarrow> Some (Threw e, w\<lparr>heap := (heap w)[cached m := c\<lparr>promise := None\<rparr>]\<rparr>))
      | _ \<Rightarrow> None)"

section \<open>The event loop\<close>

text \<open>
  The runtime is single-threaded and cooperative: what happens to the process is a sequence
  of events, each running to completion. A caller invokes \<^verbatim>\<open>connectDB\<close> of an evaluated
  module; the driver settles a pending attempt; a suspended call resumes. Any order of
  events is allowed as long as a call resumes only after the promise it awaits is settled,
  which covers every order the job queue can produce. An event that cannot happen in a state
  gives \<open>None\<close>.
\<close>

datatype event = Call mongodb_module | Settle nat "error + handle" | Resume nat

fun step :: "event \<Rightarrow> world \<Rightarrow> world option" where
  "step (Call m) w =
     (case connectDB m w of
        None \<Rightarrow> None
      | Some (t, w') \<Rightarrow> Some (w'\<lparr>tasks := tasks w' @ [t]\<rparr>))"
| "step (Settle p r) w = settle p r w"
| "step (Resume t) w =
     (case lookup (tasks w) t of
        Some (Suspended m p) \<Rightarrow>
          (case connectDB_resume m p w of
             None \<Rightarrow> None
           | Some (t', w') \<Rightarrow> Some (w'\<lparr>tasks := (tasks w')[t := t']\<rparr>))
      | _ \<Rightarrow> None)"

fun run :: "event list \<Rightarrow> world \<Rightarrow> world option" where
  "run [] w = Some w"
| "run (e # es) w = (case step e w of None \<Rightarrow> None | Some w' \<Rightarrow> run es w')"

section \<open>Vocabulary for the statements\<close>

text \<open>The modules whose \<^verbatim>\<open>connectDB\<close> is invoked by a sequence of events, in order.\<close>

fun callers :: "event list \<Rightarrow> mongodb_module list" where
  "callers [] = []"
| "callers (Call m # es) = m # callers es"
| "callers (Settle p x # es) = callers es"
| "callers (Resume t # es) = callers es"

text \<open>
  An event of a phase in which no call has resumed yet: a call through a module that uses
  the cache object \<open>r\<close>, or the driver settling an attempt.
\<close>

fun call_or_settle_on :: "nat \<Rightarrow> event \<Rightarrow> bool" where
  "call_or_settle_on r (Call m) = (cached m = r)"
| "call_or_settle_on r (Settle p x) = True"
| "call_or_settle_on r (Resume t) = False"

text \<open>Any event, as long as a call goes through a module that uses the cache object \<open>r\<close>.\<close>

fun call_on :: "nat \<Rightarrow> event \<Rightarrow> bool" where
  "call_on r (Call m) = (cached m = r)"
| "call_on r (Settle p x) = True"
| "call_on r (Resume t) = True"

text \<open>The promises awaited by the calls that are suspended on the cache object \<open>r\<close>.\<close>

fun awaits_on :: "nat \<Rightarrow> task \<Rightarrow> nat list" where
  "awaits_on r (Suspended m p) = (if cached m = r then [p] else [])"
| "awaits_on r (Resolved x) = []"
| "awaits_on r (Threw e) = []"

definition awaited_on :: "nat \<Rightarrow> world \<Rightarrow> nat list" where
  "awaited_on r w = concat (map (awaits_on r) (tasks w))"

text \<open>
  The invariant behind the reuse of the handle: the cache object \<open>r\<close> holds a handle of \<open>H\<close>,
  the calls suspended on it await promises of \<open>A\<close> only, none of which is fulfilled with a
  handle outside \<open>H\<close>, and the calls numbered from \<open>n\<close> on have returned a handle of \<open>H\<close>.
\<close>

definition connected_inv :: "nat \<Rightarrow> handle set \<Rightarrow> nat set \<Rightarrow> nat \<Rightarrow> world \<Rightarrow> bool" where
  "connected_inv r H A n w \<longleftrightarrow>
     (\<exists>c h. lookup (heap w) r = Some c \<and> conn c = Some h \<and> h \<in> H) \<and>
     set (awaited_on r w) \<subseteq> A \<and>
     (\<forall>p \<in> A. \<forall>v. lookup (promises w) p = Some (Fulfilled v) \<longrightarrow> v \<in> H) \<and>
     (\<forall>t. n \<le> t \<and> t < length (tasks w) \<longrightarrow> (\<exists>h \<in> H. tasks w ! t = Resolved (Some h)))"

section \<open>A process to run the statements on\<close>

definition example_uri :: string where
  "example_uri = ''mongodb://localhost:27017/techhub''"

definition example_module :: mongodb_module where
  "example_module = \<lparr>MONGODB_URI = example_uri, cached = 0\<rparr>"

definition connection_refused :: error where
  "connection_refused = Error ''connect ECONNREFUSED 127.0.0.1:27017''"

text \<open>The process once the module has been evaluated with the URI set.\<close>

definition loaded :: world where
  "loaded =
     \<lparr>heap = [\<lparr>conn = None, promise = None\<rparr>], global_mongoose = Some 0, promises = [],
      connect_calls = [], tasks = []\<rparr>"

text \<open>Two calls wait for the first attempt, which is pending, rejected or fulfilled.\<close>

definition waiting :: "promise_state \<Rightarrow> world" where
  "waiting st =
     \<lparr>heap = [\<lparr>conn = None, promise = Some 0\<rparr>], global_mongoose = Some 0, promises = [st],
      connect_calls = [(example_uri, \<lparr>bufferCommands = False\<rparr>)],
      tasks = [Suspended example_module 0, Suspended example_module 0]\<rparr>"

text \<open>The first of the two calls has resumed from the attempt fulfilled with the handle 7.\<close>

definition connected :: world where
  "connected =
     \<lparr>heap = [\<lparr>conn = Some 7, promise = Some 0\<rparr>], global_mongoose = Some 0,
      promises = [Fulfilled 7],
      connect_calls = [(example_uri, \<lparr>bufferCommands = False\<rparr>)],
      tasks = [Resolved (Some 7), Suspended example_module 0]\<rparr>"

text \<open>
  The first attempt was rejected and the call that started it has resumed, so the cache is
  empty again. A second call, which came after the rejection and before that resumption, is
  still suspended on the rejected promise.
\<close>

definition stale :: world where
  "stale =
     \<lparr>heap = [\<lparr>conn = None, promise = None\<rparr>], global_mongoose = Some 0,
      promises = [Rejected connection_refused],
      connect_calls = [(example_uri, \<lparr>bufferCommands = False\<rparr>)],
      tasks = [Threw connection_refused, Suspended example_module 0]\<rparr>"

text \<open>
  Two further calls are suspended, each on an attempt of its own, both pending: the second
  call above resumed between them.
\<close>

definition overlapping :: world where
  "overlapping =
     \<lparr>heap = [\<lparr>conn = None, promise = Some 2\<rparr>], global_mongoose = Some 0,
      promises = [Rejected connection_refused, Pending, Pending],
      connect_calls = [(example_uri, \<lparr>bufferCommands = False\<rparr>),
        (example_uri, \<lparr>bufferCommands = False\<rparr>), (example_uri, \<lparr>bufferCommands = False\<rparr>)],
      tasks = [Threw connection_refused, Threw connection_refused,
        Suspended example_module 1, Suspended example_module 2]\<rparr>"







section \<open>Basic facts\<close>

lemma lookup_append_one:
  "lookup (xs @ [x]) i =
     (if i < length xs then Some (xs ! i) else if i = length xs then Some x else None)"
  by (auto simp: lookup_def nth_append)

lemma lookup_update:
  "lookup (xs[i := x]) j = (if j < length xs then Some (if j = i then x else xs ! j) else None)"
  by (auto simp: lookup_def)

lemma lookup_SomeD: "lookup xs i = Some x \<Longrightarrow> i < length xs \<and> xs ! i = x"
  by (auto simp: lookup_def split: if_splits)

section \<open>What one call does, case by case\<close>

lemma connectDB_connected:
  "lookup (heap w) (cached m) = Some c \<Longrightarrow> conn c = Some h \<Longrightarrow>
   connectDB m w = Some (Resolved (Some h), w)"
  by (simp add: connectDB_def)

lemma connectDB_pending:
  "lookup (heap w) (cached m) = Some c \<Longrightarrow> conn c = None \<Longrightarrow> promise c = Some p \<Longrightarrow>
   connectDB m w = Some (Suspended m p, w)"
  by (simp add: connectDB_def)

lemma connectDB_idle:
  "lookup (heap w) (cached m) = Some c \<Longrightarrow> conn c = None \<Longrightarrow> promise c = None \<Longrightarrow>
   connectDB m w =
     Some (Suspended m (length (promises w)),
           w\<lparr>connect_calls := connect_calls w @ [(MONGODB_URI m, \<lparr>bufferCommands = False\<rparr>)],
             promises := promises w @ [Pending],
             heap := (heap w)[cached m := c\<lparr>promise := Some (length (promises w))\<rparr>]\<rparr>)"
  by (simp add: connectDB_def mongoose_connect_def)

lemma connectDB_cases:
  assumes "connectDB m w = Some (tk, w')"
  obtains (cached_handle) c h where "lookup (heap w) (cached m) = Some c" "conn c = Some h"
      "tk = Resolved (Some h)" "w' = w"
  | (pending) c p where "lookup (heap w) (cached m) = Some c" "conn c = None"
      "promise c = Some p" "tk = Suspended m p" "w' = w"
  | (connect) c where "lookup (heap w) (cached m) = Some c" "conn c = None" "promise c = None"
      "tk = Suspended m (length (promises w))"
      "w' = w\<lparr>connect_calls := connect_calls w @ [(MONGODB_URI m, \<lparr>bufferCommands = False\<rparr>)],
              promises := promises w @ [Pending],
              heap := (heap w)[cached m := c\<lparr>promise := Some (length (promises w))\<rparr>]\<rparr>"
  using assms
  by (auto simp: connectDB_def mongoose_connect_def Let_def split: option.splits)

lemma connectDB_resume_cases:
  assumes "connectDB_resume m p w = Some (tk, w')"
  obtains (fulfilled) c v where "lookup (heap w) (cached m) = Some c"
      "lookup (promises w) p = Some (Fulfilled v)" "tk = Resolved (Some v)"
      "w' = w\<lparr>heap := (heap w)[cached m := c\<lparr>conn := Some v\<rparr>]\<rparr>"
  | (rejected) c e where "lookup (heap w) (cached m) = Some c"
      "lookup (promises w) p = Some (Rejected e)" "tk = Threw e"
      "w' = w\<lparr>heap := (heap w)[cached m := c\<lparr>promise := None\<rparr>]\<rparr>"
  using assms
  by (auto simp: connectDB_resume_def Let_def lookup_update
           split: option.splits promise_state.splits if_splits dest: lookup_SomeD)

lemma settle_cases:
  assumes "settle p r w = Some w'"
  obtains "lookup (promises w) p = Some Pending"
      "w' = w\<lparr>promises := (promises w)
               [p := (case r of Inl e \<Rightarrow> Rejected e | Inr v \<Rightarrow> Fulfilled v)]\<rparr>"
  using assms
  by (cases r) (auto simp: settle_def then_callback_def split: option.splits promise_state.splits)

lemma resume_rejected:
  assumes "lookup (tasks w) t = Some (Suspended m p)"
    and "lookup (promises w) p = Some (Rejected e)"
    and "lookup (heap w) (cached m) = Some c"
  shows "step (Resume t) w =
     Some (w\<lparr>heap := (heap w)[cached m := c\<lparr>promise := None\<rparr>], tasks := (tasks w)[t := Threw e]\<rparr>)"
  using assms by (simp add: connectDB_resume_def)

lemma module_init_cases:
  assumes "module_init env w = (Inr m, w')"
  obtains (reuse) uri where "env = Some uri" "uri \<noteq> []" "MONGODB_URI m = uri"
      "global_mongoose w = Some (cached m)" "w' = w"
  | (create) uri where "env = Some uri" "uri \<noteq> []" "MONGODB_URI m = uri"
      "global_mongoose w = None" "cached m = length (heap w)"
      "w' = w\<lparr>heap := heap w @ [\<lparr>conn = None, promise = None\<rparr>],
              global_mongoose := Some (length (heap w))\<rparr>"
  using assms
  by (auto simp: module_init_def Let_def split: option.splits if_splits)

lemma connectDB_connect_calls:
  "connectDB m w = Some (t, w') \<Longrightarrow>
   connect_calls w' = connect_calls w @
     (case lookup (heap w) (cached m) of
        Some c \<Rightarrow> if conn c = None \<and> promise c = None
                  then [(MONGODB_URI m, \<lparr>bufferCommands = False\<rparr>)] else []
      | None \<Rightarrow> [])"
  by (auto simp: connectDB_def mongoose_connect_def Let_def split: option.splits)

section \<open>What a step keeps\<close>

lemma step_global_mongoose:
  assumes "step ev w = Some w'"
  shows "global_mongoose w' = global_mongoose w"
proof (cases ev)
  case (Call m)
  with assms obtain tk w1 where c: "connectDB m w = Some (tk, w1)"
    and w': "w' = w1\<lparr>tasks := tasks w1 @ [tk]\<rparr>"
    by (auto split: option.splits)
  from c have "global_mongoose w1 = global_mongoose w"
    by (cases rule: connectDB_cases) auto
  with w' show ?thesis by simp
next
  case (Settle q x)
  with assms show ?thesis by (auto elim: settle_cases)
next
  case (Resume t)
  with assms obtain m q tk w1 where r: "connectDB_resume m q w = Some (tk, w1)"
    and w': "w' = w1\<lparr>tasks := (tasks w1)[t := tk]\<rparr>"
    by (auto split: option.splits task.splits)
  from r have "global_mongoose w1 = global_mongoose w"
    by (cases rule: connectDB_resume_cases) auto
  with w' show ?thesis by simp
qed

lemma run_global_mongoose:
  "run evs w = Some w' \<Longrightarrow> global_mongoose w' = global_mongoose w"
proof (induction evs arbitrary: w)
  case Nil
  then show ?case by simp
next
  case (Cons ev evs)
  from Cons.prems obtain w1 where s: "step ev w = Some w1" and r: "run evs w1 = Some w'"
    by (auto split: option.splits)
  from Cons.IH[OF r] step_global_mongoose[OF s] show ?case by simp
qed

lemma run_append:
  "run (xs @ ys) w = (case run xs w of None \<Rightarrow> None | Some w' \<Rightarrow> run ys w')"
  by (induction xs arbitrary: w) (auto split: option.splits)

lemma step_promises:
  assumes "step ev w = Some w'" and "lookup (promises w) p = Some st" and "st \<noteq> Pending"
  shows "lookup (promises w') p = Some st"
proof (cases ev)
  case (Call m)
  with assms(1) obtain tk w1 where c: "connectDB m w = Some (tk, w1)"
    and w': "w' = w1\<lparr>tasks := tasks w1 @ [tk]\<rparr>"
    by (auto split: option.splits)
  from c have "promises w1 = promises w \<or> promises w1 = promises w @ [Pending]"
    by (cases rule: connectDB_cases) auto
  with assms(2) w' show ?thesis
    by (auto simp: lookup_append_one dest: lookup_SomeD)
next
  case (Settle q x)
  with assms(1) have "lookup (promises w) q = Some Pending"
    and "w' = w\<lparr>promises := (promises w)
        [q := (case x of Inl e \<Rightarrow> Rejected e | Inr v \<Rightarrow> Fulfilled v)]\<rparr>"
    by (auto elim: settle_cases)
  with assms(2,3) show ?thesis
    by (auto simp: lookup_update dest: lookup_SomeD)
next
  case (Resume t)
  with assms(1) obtain m q tk w1 where r: "connectDB_resume m q w = Some (tk, w1)"
    and w': "w' = w1\<lparr>tasks := (tasks w1)[t := tk]\<rparr>"
    by (auto split: option.splits task.splits)
  from r have "promises w1 = promises w"
    by (cases rule: connectDB_resume_cases) auto
  with assms(2) w' show ?thesis by simp
qed

lemma run_promises:
  assumes "run evs w = Some w'" and "lookup (promises w) p = Some st" and "st \<noteq> Pending"
  shows "lookup (promises w') p = Some st"
  using assms
proof (induction evs arbitrary: w)
  case Nil
  then show ?case by simp
next
  case (Cons ev evs)
  from Cons.prems(1) obtain w1 where s: "step ev w = Some w1" and r: "run evs w1 = Some w'"
    by (auto split: option.splits)
  from Cons.IH[OF r step_promises[OF s Cons.prems(2,3)] Cons.prems(3)] show ?case .
qed

lemma step_rejected_waiter:
  assumes "step ev w = Some w'" and "lookup (promises w) p = Some (Rejected e)"
    and "lookup (tasks w) t = Some (Suspended m p) \<or> lookup (tasks w) t = Some (Threw e)"
  shows "lookup (tasks w') t = Some (Suspended m p) \<or> lookup (tasks w') t = Some (Threw e)"
proof (cases ev)
  case (Call m')
  with assms(1) obtain tk w1 where c: "connectDB m' w = Some (tk, w1)"
    and w': "w' = w1\<lparr>tasks := tasks w1 @ [tk]\<rparr>"
    by (auto split: option.splits)
  from c have "tasks w1 = tasks w"
    by (cases rule: connectDB_cases) auto
  with assms(3) w' show ?thesis
    by (auto simp: lookup_append_one dest: lookup_SomeD)
next
  case (Settle q x)
  with assms(1) have "tasks w' = tasks w"
    by (auto elim: settle_cases)
  with assms(3) show ?thesis by simp
next
  case (Resume u)
  with assms(1) obtain m' q tk w1 where u: "lookup (tasks w) u = Some (Suspended m' q)"
    and r: "connectDB_resume m' q w = Some (tk, w1)"
    and w': "w' = w1\<lparr>tasks := (tasks w1)[u := tk]\<rparr>"
    by (auto split: option.splits task.splits)
  show ?thesis
  proof (cases "u = t")
    case True
    with u assms(3) have q: "q = p" by auto
    from r q assms(2) have "tk = Threw e" "tasks w1 = tasks w"
      by (cases rule: connectDB_resume_cases; simp)+
    with w' True u show ?thesis
      by (auto simp: lookup_update dest: lookup_SomeD)
  next
    case False
    from r have "tasks w1 = tasks w"
      by (cases rule: connectDB_resume_cases) auto
    with w' False assms(3) show ?thesis
      by (auto simp: lookup_update dest: lookup_SomeD)
  qed
qed

lemma run_rejected_waiter:
  assumes "run evs w = Some w'" and "lookup (promises w) p = Some (Rejected e)"
    and "lookup (tasks w) t = Some (Suspended m p) \<or> lookup (tasks w) t = Some (Threw e)"
  shows "lookup (tasks w') t = Some (Suspended m p) \<or> lookup (tasks w') t = Some (Threw e)"
  using assms
proof (induction evs arbitrary: w)
  case Nil
  then show ?case by simp
next
  case (Cons ev evs)
  from Cons.prems(1) obtain w1 where s: "step ev w = Some w1" and r: "run evs w1 = Some w'"
    by (auto split: option.splits)
  from step_promises[OF s Cons.prems(2)]
  have p1: "lookup (promises w1) p = Some (Rejected e)" by simp
  from Cons.IH[OF r p1 step_rejected_waiter[OF s Cons.prems(2,3)]] show ?case .
qed

section \<open>Calls before any of them resumes\<close>

lemma pending_phase:
  assumes "lookup (heap w) r = Some c" and "conn c = None" and "promise c = Some p"
    and "list_all (call_or_settle_on r) evs" and "run evs w = Some w'"
  shows "heap w' = heap w \<and> connect_calls w' = connect_calls w \<and>
         length (promises w') = length (promises w) \<and>
         tasks w' = tasks w @ map (\<lambda>m. Suspended m p) (callers evs)"
  using assms
proof (induction evs arbitrary: w)
  case Nil
  then show ?case by simp
next
  case (Cons ev evs)
  from Cons.prems(5) obtain w1 where s: "step ev w = Some w1" and r: "run evs w1 = Some w'"
    by (auto split: option.splits)
  show ?case
  proof (cases ev)
    case (Call m)
    with Cons.prems(4) have m: "cached m = r" by simp
    from s Call obtain tk w0 where c: "connectDB m w = Some (tk, w0)"
      and w1: "w1 = w0\<lparr>tasks := tasks w0 @ [tk]\<rparr>"
      by (auto split: option.splits)
    from c m connectDB_pending[of w m c p] Cons.prems(1-3) have "tk = Suspended m p" "w0 = w"
      by simp_all
    with w1 have w1': "w1 = w\<lparr>tasks := tasks w @ [Suspended m p]\<rparr>" by simp
    have "lookup (heap w1) r = Some c" using Cons.prems(1) w1' by simp
    from Cons.IH[OF this Cons.prems(2,3) _ r] Cons.prems(4) w1' Call
    show ?thesis by simp
  next
    case (Settle q x)
    with s have w1: "w1 = w\<lparr>promises := (promises w)
        [q := (case x of Inl e \<Rightarrow> Rejected e | Inr v \<Rightarrow> Fulfilled v)]\<rparr>"
      by (auto elim: settle_cases)
    have "lookup (heap w1) r = Some c" using Cons.prems(1) w1 by simp
    from Cons.IH[OF this Cons.prems(2,3) _ r] Cons.prems(4) w1 Settle
    show ?thesis by simp
  next
    case (Resume t)
    with Cons.prems(4) show ?thesis by simp
  qed
qed

lemma idle_phase:
  assumes "lookup (heap w) r = Some c" and "conn c = None" and "promise c = None"
    and "list_all (call_or_settle_on r) evs" and "run evs w = Some w'"
    and "callers evs \<noteq> []"
  shows "length (connect_calls w') = length (connect_calls w) + 1 \<and>
         lookup (heap w') r = Some (c\<lparr>promise := Some (length (promises w))\<rparr>) \<and>
         tasks w' = tasks w @ map (\<lambda>m. Suspended m (length (promises w))) (callers evs)"
  using assms
proof (induction evs arbitrary: w)
  case Nil
  then show ?case by simp
next
  case (Cons ev evs)
  from Cons.prems(5) obtain w1 where s: "step ev w = Some w1" and r: "run evs w1 = Some w'"
    by (auto split: option.splits)
  show ?case
  proof (cases ev)
    case (Call m)
    with Cons.prems(4) have m: "cached m = r" by simp
    from s Call obtain tk w0 where c: "connectDB m w = Some (tk, w0)"
      and w1: "w1 = w0\<lparr>tasks := tasks w0 @ [tk]\<rparr>"
      by (auto split: option.splits)
    let ?p = "length (promises w)"
    from c m connectDB_idle[of w m c] Cons.prems(1-3) have tk: "tk = Suspended m ?p"
      and w0: "w0 = w\<lparr>connect_calls := connect_calls w @ [(MONGODB_URI m, \<lparr>bufferCommands = False\<rparr>)],
              promises := promises w @ [Pending],
              heap := (heap w)[r := c\<lparr>promise := Some ?p\<rparr>]\<rparr>"
      by simp_all
    have h1: "lookup (heap w1) r = Some (c\<lparr>promise := Some ?p\<rparr>)"
      using Cons.prems(1) w1 w0 by (auto simp: lookup_update dest: lookup_SomeD)
    have "list_all (call_or_settle_on r) evs" using Cons.prems(4) by simp
    from pending_phase[OF h1 _ _ this r] Cons.prems(2)
    have "heap w' = heap w1" "connect_calls w' = connect_calls w1"
      "tasks w' = tasks w1 @ map (\<lambda>m. Suspended m ?p) (callers evs)"
      by simp_all
    with h1 w1 w0 tk Call show ?thesis by simp
  next
    case (Settle q x)
    with s have w1: "w1 = w\<lparr>promises := (promises w)
        [q := (case x of Inl e \<Rightarrow> Rejected e | Inr v \<Rightarrow> Fulfilled v)]\<rparr>"
      by (auto elim: settle_cases)
    have "lookup (heap w1) r = Some c" using Cons.prems(1) w1 by simp
    from Cons.IH[OF this Cons.prems(2,3) _ r] Cons.prems(4,6) w1 Settle
    show ?thesis by simp
  next
    case (Resume t)
    with Cons.prems(4) show ?thesis by simp
  qed
qed

section \<open>Once a handle is cached\<close>

lemma awaited_on_iff:
  "p \<in> set (awaited_on r w) \<longleftrightarrow> (\<exists>m. Suspended m p \<in> set (tasks w) \<and> cached m = r)"
proof -
  have "\<And>tk. p \<in> set (awaits_on r tk) \<longleftrightarrow> (\<exists>m. tk = Suspended m p \<and> cached m = r)"
    by (case_tac tk) auto
  then show ?thesis by (auto simp: awaited_on_def)
qed

lemma awaited_on_shrink:
  assumes "tasks w' = (tasks w)[t := tk]" and "awaits_on r tk = []"
  shows "set (awaited_on r w') \<subseteq> set (awaited_on r w)"
proof
  fix q assume "q \<in> set (awaited_on r w')"
  then obtain m where m: "Suspended m q \<in> set ((tasks w)[t := tk])" "cached m = r"
    by (auto simp: awaited_on_iff assms(1))
  moreover have "Suspended m q \<noteq> tk" using assms(2) m(2) by auto
  ultimately have "Suspended m q \<in> set (tasks w)"
    using set_update_subset_insert[of "tasks w" t tk] by auto
  with m(2) show "q \<in> set (awaited_on r w)" by (auto simp: awaited_on_iff)
qed

lemma connected_inv_step:
  assumes inv: "connected_inv r H A n w" and ev: "call_on r ev"
    and ok: "\<forall>p \<in> A. \<forall>v. ev = Settle p (Inr v) \<longrightarrow> v \<in> H"
    and s: "step ev w = Some w'"
  shows "connected_inv r H A n w' \<and> connect_calls w' = connect_calls w \<and>
         length (tasks w') = length (tasks w) + length (callers [ev])"
proof -
  from inv obtain c h where c: "lookup (heap w) r = Some c" "conn c = Some h" "h \<in> H"
    and sub: "set (awaited_on r w) \<subseteq> A"
    and st: "\<forall>p \<in> A. \<forall>v. lookup (promises w) p = Some (Fulfilled v) \<longrightarrow> v \<in> H"
    and res: "\<forall>t. n \<le> t \<and> t < length (tasks w) \<longrightarrow> (\<exists>h \<in> H. tasks w ! t = Resolved (Some h))"
    by (auto simp: connected_inv_def)
  show ?thesis
  proof (cases ev)
    case (Call m)
    with ev have m: "cached m = r" by simp
    from connectDB_connected[of w m c h] c m
    have "connectDB m w = Some (Resolved (Some h), w)" by simp
    with s Call have w': "w' = w\<lparr>tasks := tasks w @ [Resolved (Some h)]\<rparr>" by simp
    have "set (awaited_on r w') = set (awaited_on r w)"
      by (simp add: w' awaited_on_def)
    with c sub st res show ?thesis
      by (auto simp: connected_inv_def w' Call nth_append)
  next
    case (Settle q x)
    with s have pend: "lookup (promises w) q = Some Pending"
      and w': "w' = w\<lparr>promises := (promises w)
        [q := (case x of Inl e \<Rightarrow> Rejected e | Inr v \<Rightarrow> Fulfilled v)]\<rparr>"
      by (auto elim: settle_cases)
    have "v \<in> H" if "p \<in> A" "lookup (promises w') p = Some (Fulfilled v)" for p v
    proof (cases "p = q")
      case True
      with that(2) pend have "x = Inr v"
        by (cases x) (auto simp: w' lookup_update dest: lookup_SomeD)
      with ok that(1) True Settle show ?thesis by simp
    next
      case False
      with that(2) have "lookup (promises w) p = Some (Fulfilled v)"
        by (auto simp: w' lookup_update lookup_def split: if_splits)
      with st that(1) show ?thesis by blast
    qed
    moreover have "awaited_on r w' = awaited_on r w" by (simp add: w' awaited_on_def)
    ultimately show ?thesis using c sub res
      by (auto simp: connected_inv_def w' Settle)
  next
    case (Resume t)
    with s obtain m p tk w1 where t: "lookup (tasks w) t = Some (Suspended m p)"
      and r: "connectDB_resume m p w = Some (tk, w1)" and w': "w' = w1\<lparr>tasks := (tasks w1)[t := tk]\<rparr>"
      by (auto split: option.splits task.splits)
    from t have tlen: "t < length (tasks w)" and tnth: "tasks w ! t = Suspended m p"
      by (auto dest: lookup_SomeD)
    have tn: "t < n"
    proof (rule ccontr)
      assume "\<not> t < n"
      then have "n \<le> t" by simp
      with res tlen have "\<exists>h' \<in> H. tasks w ! t = Resolved (Some h')" by blast
      with tnth show False by simp
    qed
    from tlen tnth have mem: "Suspended m p \<in> set (tasks w)" by (metis nth_mem)
    from r show ?thesis
    proof (cases rule: connectDB_resume_cases)
      case (fulfilled c0 v)
      have hp: "\<exists>c' h'. lookup (heap w') r = Some c' \<and> conn c' = Some h' \<and> h' \<in> H"
      proof (cases "cached m = r")
        case True
        with mem have "p \<in> set (awaited_on r w)" by (auto simp: awaited_on_iff)
        with sub have "p \<in> A" by blast
        with st fulfilled(2) have "v \<in> H" by blast
        with True c fulfilled show ?thesis
          by (auto simp: w' lookup_update dest: lookup_SomeD)
      next
        case False
        with c fulfilled show ?thesis
          by (auto simp: w' lookup_update dest: lookup_SomeD)
      qed
      have "set (awaited_on r w') \<subseteq> A"
        using awaited_on_shrink[of w' w t "Resolved (Some v)" r] sub by (simp add: w' fulfilled)
      with hp st res tn show ?thesis
        by (auto simp: connected_inv_def w' fulfilled Resume)
    next
      case (rejected c0 e)
      have hp: "\<exists>c' h'. lookup (heap w') r = Some c' \<and> conn c' = Some h' \<and> h' \<in> H"
        using c rejected by (auto simp: w' lookup_update dest: lookup_SomeD)
      have "set (awaited_on r w') \<subseteq> A"
        using awaited_on_shrink[of w' w t "Threw e" r] sub by (simp add: w' rejected)
      with hp st res tn show ?thesis
        by (auto simp: connected_inv_def w' rejected Resume)
    qed
  qed
qed

lemma length_callers_Cons: "length (callers (ev # evs)) = length (callers [ev]) + length (callers evs)"
  by (cases ev) simp_all

lemma connected_inv_run:
  assumes "connected_inv r H A n w" and "list_all (call_on r) evs"
    and "\<forall>p \<in> A. \<forall>v. Settle p (Inr v) \<in> set evs \<longrightarrow> v \<in> H" and "run evs w = Some w'"
  shows "connected_inv r H A n w' \<and> connect_calls w' = connect_calls w \<and>
         length (tasks w') = length (tasks w) + length (callers evs)"
  using assms
proof (induction evs arbitrary: w)
  case Nil
  then show ?case by simp
next
  case (Cons ev evs)
  from Cons.prems(4) obtain w1 where s: "step ev w = Some w1" and r: "run evs w1 = Some w'"
    by (auto split: option.splits)
  from Cons.prems(2) have ev: "call_on r ev" and evs: "list_all (call_on r) evs" by simp_all
  from Cons.prems(3) have ok: "\<forall>p \<in> A. \<forall>v. ev = Settle p (Inr v) \<longrightarrow> v \<in> H"
    and oks: "\<forall>p \<in> A. \<forall>v. Settle p (Inr v) \<in> set evs \<longrightarrow> v \<in> H" by auto
  from connected_inv_step[OF Cons.prems(1) ev ok s]
  have i1: "connected_inv r H A n w1" and c1: "connect_calls w1 = connect_calls w"
    and l1: "length (tasks w1) = length (tasks w) + length (callers [ev])" by simp_all
  from Cons.IH[OF i1 evs oks r] c1 l1 show ?case
    by (simp add: length_callers_Cons[of ev evs])
qed

text \<open>
  With a handle in the cache, whatever happens next, \<^verbatim>\<open>mongoose.connect\<close> is not invoked
  again, the field still holds a handle, and every call made in the meantime has returned a
  handle at once.
\<close>

lemma connected_reuse:
  assumes "lookup (heap w) r = Some c" and "conn c = Some h"
    and "list_all (call_on r) evs" and "run evs w = Some w'"
  shows "connect_calls w' = connect_calls w \<and>
     length (tasks w') = length (tasks w) + length (callers evs) \<and>
     (\<exists>c' h'. lookup (heap w') r = Some c' \<and> conn c' = Some h') \<and>
     (\<forall>t. length (tasks w) \<le> t \<and> t < length (tasks w') \<longrightarrow>
        (\<exists>h'. lookup (tasks w') t = Some (Resolved (Some h'))))"
proof -
  let ?A = "set (awaited_on r w)" and ?n = "length (tasks w)"
  have "connected_inv r UNIV ?A ?n w"
    using assms(1,2) by (auto simp: connected_inv_def)
  from connected_inv_run[OF this assms(3) _ assms(4)]
  have any: "connected_inv r UNIV ?A ?n w'" and cc: "connect_calls w' = connect_calls w"
    and len: "length (tasks w') = ?n + length (callers evs)"
    by simp_all
  from any obtain c' h' where c': "lookup (heap w') r = Some c'" "conn c' = Some h'"
    by (auto simp: connected_inv_def)
  have calls: "\<exists>k. lookup (tasks w') t = Some (Resolved (Some k))"
    if t: "?n \<le> t \<and> t < length (tasks w')" for t
    using any t by (auto simp: connected_inv_def lookup_def)
  from cc len c' calls show ?thesis by blast
qed

section \<open>Two evaluations of the module\<close>

text \<open>
  Two evaluations of the module in one process, with anything happening in between, use one
  cache object, the one in \<^verbatim>\<open>global.mongoose\<close>, and the second evaluation changes nothing in
  the process.
\<close>

lemma module_reload_same_cache:
  assumes "module_init env1 w0 = (Inr m1, w1)" and "run evs1 w1 = Some w2"
    and "module_init env2 w2 = (Inr m2, w3)"
  shows "cached m2 = cached m1 \<and> global_mongoose w1 = Some (cached m1) \<and>
     global_mongoose w3 = Some (cached m2) \<and> w3 = w2"
proof -
  from assms(1) have g1: "global_mongoose w1 = Some (cached m1)"
    by (cases rule: module_init_cases) auto
  with run_global_mongoose[OF assms(2)] have g2: "global_mongoose w2 = Some (cached m1)"
    by simp
  from assms(3) g2 have "cached m2 = cached m1" and "w3 = w2"
    by (cases rule: module_init_cases; simp)+
  with g1 g2 show ?thesis by simp
qed

section \<open>Properties of the connection cache\<close>

text \<open>
  C1. Calls issued before any of them resumes do not always share one attempt. In the state
  \<open>stale\<close>, reached from the evaluated module by a first call, the rejection of its attempt, a
  second call and the resumption of the first, the cache is empty and the second call is
  still suspended on the rejected promise. Two calls follow, and the second call resumes
  between them: lines 62 to 65 set \<^verbatim>\<open>cached.promise\<close> to \<^verbatim>\<open>null\<close> whatever promise the cache
  holds by then, so it drops the promise the first of the two has just stored, and the other
  one finds no promise and invokes \<^verbatim>\<open>mongoose.connect\<close> again. In the end neither of the two
  calls has resumed, \<^verbatim>\<open>mongoose.connect\<close> has been invoked twice for them, and they await two
  attempts that are both pending. When no call resumes in between, the invocation is single
  (lemma \<open>idle_phase\<close>).
\<close>

theorem stale_waiter_starts_second_attempt:
  "run [Call example_module, Settle 0 (Inl connection_refused), Call example_module, Resume 0]
     loaded = Some stale \<and>
   lookup (heap stale) (cached example_module) = Some \<lparr>conn = None, promise = None\<rparr> \<and>
   run [Call example_module, Resume 1, Call example_module] stale = Some overlapping \<and>
   connect_calls overlapping =
     connect_calls stale @
       [(example_uri, \<lparr>bufferCommands = False\<rparr>), (example_uri, \<lparr>bufferCommands = False\<rparr>)] \<and>
   drop (length (tasks stale)) (tasks overlapping) =
     [Suspended example_module 1, Suspended example_module 2] \<and>
   lookup (promises overlapping) 1 = Some Pending \<and>
   lookup (promises overlapping) 2 = Some Pending"
proof -
  have a: "run [Call example_module, Settle 0 (Inl connection_refused), Call example_module,
      Resume 0] loaded = Some stale"
    by (simp add: loaded_def stale_def example_module_def connectDB_def connectDB_resume_def
        mongoose_connect_def settle_def lookup_def)
  have b: "run [Call example_module, Resume 1, Call example_module] stale = Some overlapping"
    by (simp add: stale_def overlapping_def example_module_def connectDB_def
        connectDB_resume_def mongoose_connect_def lookup_def)
  show ?thesis
    using a b by (simp add: stale_def overlapping_def example_module_def lookup_def)
qed


text \<open>
  C3. A call that resumes from a rejected attempt sets \<^verbatim>\<open>cached.promise\<close> to \<^verbatim>\<open>null\<close> and
  rethrows: when its promise is rejected with \<open>e\<close>, the cache has no promise any more, and
  \<^verbatim>\<open>mongoose.connect\<close> has not been invoked. The next call, through any module \<open>m'\<close> that uses
  the same cache object, made while no handle is cached (the state every failed first
  attempt leaves), invokes \<^verbatim>\<open>mongoose.connect\<close> exactly once, stores the new pending promise
  in the cache and is suspended on it.
\<close>

theorem retry_after_failure:
  assumes "lookup (tasks w) t = Some (Suspended m p)"
    and "lookup (promises w) p = Some (Rejected e)"
    and "lookup (heap w) (cached m) = Some c"
    and "cached m' = cached m"
  shows "\<exists>w1. step (Resume t) w = Some w1 \<and>
     lookup (tasks w1) t = Some (Threw e) \<and>
     lookup (heap w1) (cached m) = Some (c\<lparr>promise := None\<rparr>) \<and>
     connect_calls w1 = connect_calls w \<and>
     (conn c = None \<longrightarrow>
       (\<exists>w2. step (Call m') w1 = Some w2 \<and>
          connect_calls w2 = connect_calls w1 @ [(MONGODB_URI m', \<lparr>bufferCommands = False\<rparr>)] \<and>
          lookup (heap w2) (cached m) = Some \<lparr>conn = None, promise = Some (length (promises w1))\<rparr> \<and>
          lookup (promises w2) (length (promises w1)) = Some Pending \<and>
          lookup (tasks w2) (length (tasks w1)) = Some (Suspended m' (length (promises w1)))))"
proof -
  let ?w1 = "w\<lparr>heap := (heap w)[cached m := c\<lparr>promise := None\<rparr>], tasks := (tasks w)[t := Threw e]\<rparr>"
  have s: "step (Resume t) w = Some ?w1" by (rule resume_rejected[OF assms(1-3)])
  have t1: "lookup (tasks ?w1) t = Some (Threw e)"
    using assms(1) by (auto simp: lookup_update dest: lookup_SomeD)
  have h1: "lookup (heap ?w1) (cached m') = Some (c\<lparr>promise := None\<rparr>)"
    using assms(3,4) by (auto simp: lookup_update dest: lookup_SomeD)
  have retry: "\<exists>w2. step (Call m') ?w1 = Some w2 \<and>
          connect_calls w2 = connect_calls ?w1 @ [(MONGODB_URI m', \<lparr>bufferCommands = False\<rparr>)] \<and>
          lookup (heap w2) (cached m) = Some \<lparr>conn = None, promise = Some (length (promises ?w1))\<rparr> \<and>
          lookup (promises w2) (length (promises ?w1)) = Some Pending \<and>
          lookup (tasks w2) (length (tasks ?w1)) = Some (Suspended m' (length (promises ?w1)))"
    if "conn c = None"
  proof -
    from connectDB_idle[OF h1] that
    have "connectDB m' ?w1 = Some (Suspended m' (length (promises ?w1)),
           ?w1\<lparr>connect_calls := connect_calls ?w1 @ [(MONGODB_URI m', \<lparr>bufferCommands = False\<rparr>)],
             promises := promises ?w1 @ [Pending],
             heap := (heap ?w1)[cached m' := c\<lparr>promise := None\<rparr>\<lparr>promise := Some (length (promises ?w1))\<rparr>]\<rparr>)"
      by simp
    then show ?thesis using assms(3,4) that
      by (auto simp: lookup_update lookup_append_one dest: lookup_SomeD)
  qed
  from s t1 h1 retry assms(4) show ?thesis by auto
qed

theorem retry_after_failure_witness:
  "lookup (tasks (waiting (Rejected connection_refused))) 0 = Some (Suspended example_module 0) \<and>
   lookup (promises (waiting (Rejected connection_refused))) 0 = Some (Rejected connection_refused) \<and>
   lookup (heap (waiting (Rejected connection_refused))) (cached example_module) =
     Some \<lparr>conn = None, promise = Some 0\<rparr> \<and>
   (\<exists>w1 w2. step (Resume 0) (waiting (Rejected connection_refused)) = Some w1 \<and>
      lookup (tasks w1) 0 = Some (Threw connection_refused) \<and>
      lookup (heap w1) 0 = Some \<lparr>conn = None, promise = None\<rparr> \<and>
      step (Call example_module) w1 = Some w2 \<and>
      connect_calls w2 =
        [(example_uri, \<lparr>bufferCommands = False\<rparr>), (example_uri, \<lparr>bufferCommands = False\<rparr>)] \<and>
      lookup (heap w2) 0 = Some \<lparr>conn = None, promise = Some 1\<rparr> \<and>
      lookup (tasks w2) 2 = Some (Suspended example_module 1))"
proof -
  let ?w = "waiting (Rejected connection_refused)"
  let ?c = "\<lparr>conn = None, promise = Some 0\<rparr>"
  have h1: "lookup (tasks ?w) 0 = Some (Suspended example_module 0)"
    by (simp add: waiting_def lookup_def)
  have h2: "lookup (promises ?w) 0 = Some (Rejected connection_refused)"
    by (simp add: waiting_def lookup_def)
  have h3: "lookup (heap ?w) (cached example_module) = Some ?c"
    by (simp add: waiting_def lookup_def example_module_def)
  have h4: "cached example_module = cached example_module" by simp
  have h5: "conn ?c = None" by simp
  let ?w1 = "?w\<lparr>heap := [\<lparr>conn = None, promise = None\<rparr>],
               tasks := [Threw connection_refused, Suspended example_module 0]\<rparr>"
  have s1: "step (Resume 0) ?w = Some ?w1"
    by (simp add: waiting_def connectDB_resume_def lookup_def example_module_def)
  from retry_after_failure[OF h1 h2 h3 h4] h5 s1
  obtain w2 where s2: "step (Call example_module) ?w1 = Some w2"
    and c2: "connect_calls w2 =
      connect_calls ?w1 @ [(MONGODB_URI example_module, \<lparr>bufferCommands = False\<rparr>)]"
    and p2: "lookup (heap w2) (cached example_module) =
      Some \<lparr>conn = None, promise = Some (length (promises ?w1))\<rparr>"
    and t2: "lookup (tasks w2) (length (tasks ?w1)) =
      Some (Suspended example_module (length (promises ?w1)))"
    by auto
  have "lookup (tasks ?w1) 0 = Some (Threw connection_refused)"
    "lookup (heap ?w1) 0 = Some \<lparr>conn = None, promise = None\<rparr>"
    by (simp_all add: lookup_def)
  moreover from c2 have "connect_calls w2 =
      [(example_uri, \<lparr>bufferCommands = False\<rparr>), (example_uri, \<lparr>bufferCommands = False\<rparr>)]"
    by (simp add: waiting_def example_module_def)
  moreover from p2 have "lookup (heap w2) 0 = Some \<lparr>conn = None, promise = Some 1\<rparr>"
    by (simp add: waiting_def example_module_def)
  moreover from t2 have "lookup (tasks w2) 2 = Some (Suspended example_module 1)"
    by (simp add: waiting_def numeral_2_eq_2)
  ultimately show ?thesis using h1 h2 h3 s1 s2 by blast
qed

text \<open>
  C4. When the driver rejects an attempt with \<open>e\<close>, the promise the calls await is rejected
  with \<open>e\<close> and stays so whatever happens next. Every call that was awaiting it is, at any
  later time, either still suspended on it or rejected with \<open>e\<close> itself, and every call
  that is suspended on it, also one that arrived after the rejection, can resume and is
  then rejected with \<open>e\<close>: the error is the driver's, unchanged, for all of them.
\<close>

theorem failure_transparency:
  assumes "step (Settle p (Inl e)) w = Some w1" and "run evs w1 = Some w2"
  shows "lookup (promises w2) p = Some (Rejected e) \<and>
     (\<forall>t m. lookup (tasks w1) t = Some (Suspended m p) \<longrightarrow>
        lookup (tasks w2) t = Some (Suspended m p) \<or> lookup (tasks w2) t = Some (Threw e)) \<and>
     (\<forall>t m c. lookup (tasks w2) t = Some (Suspended m p) \<and> lookup (heap w2) (cached m) = Some c \<longrightarrow>
        (\<exists>w3. step (Resume t) w2 = Some w3 \<and> lookup (tasks w3) t = Some (Threw e)))"
proof -
  from assms(1) have p1: "lookup (promises w1) p = Some (Rejected e)"
    by (auto elim!: settle_cases simp: lookup_update dest: lookup_SomeD)
  from run_promises[OF assms(2) p1]
  have p2: "lookup (promises w2) p = Some (Rejected e)" by simp
  have a: "lookup (tasks w2) t = Some (Suspended m p) \<or> lookup (tasks w2) t = Some (Threw e)"
    if "lookup (tasks w1) t = Some (Suspended m p)" for t m
    using run_rejected_waiter[OF assms(2) p1, of t m] that by simp
  have b: "\<exists>w3. step (Resume t) w2 = Some w3 \<and> lookup (tasks w3) t = Some (Threw e)"
    if "lookup (tasks w2) t = Some (Suspended m p)" "lookup (heap w2) (cached m) = Some c" for t m c
    using resume_rejected[OF that(1) p2 that(2)] that(1)
    by (auto simp: lookup_update dest: lookup_SomeD)
  from a b p2 show ?thesis by blast
qed

theorem failure_transparency_witness:
  "step (Settle 0 (Inl connection_refused)) (waiting Pending) =
     Some (waiting (Rejected connection_refused)) \<and>
   run [Resume 0] (waiting (Rejected connection_refused)) =
     Some ((waiting (Rejected connection_refused))
       \<lparr>heap := [\<lparr>conn = None, promise = None\<rparr>],
        tasks := [Threw connection_refused, Suspended example_module 0]\<rparr>) \<and>
   (\<exists>w3. step (Resume 1) ((waiting (Rejected connection_refused))
       \<lparr>heap := [\<lparr>conn = None, promise = None\<rparr>],
        tasks := [Threw connection_refused, Suspended example_module 0]\<rparr>) = Some w3 \<and>
      lookup (tasks w3) 1 = Some (Threw connection_refused))"
proof -
  let ?w1 = "waiting (Rejected connection_refused)"
  let ?w2 = "?w1\<lparr>heap := [\<lparr>conn = None, promise = None\<rparr>],
                tasks := [Threw connection_refused, Suspended example_module 0]\<rparr>"
  have h1: "step (Settle 0 (Inl connection_refused)) (waiting Pending) = Some ?w1"
    by (simp add: waiting_def settle_def lookup_def)
  have h2: "run [Resume 0] ?w1 = Some ?w2"
    by (simp add: waiting_def connectDB_resume_def lookup_def example_module_def)
  have h3: "lookup (tasks ?w2) 1 = Some (Suspended example_module 0)"
    by (simp add: lookup_def)
  have h4: "lookup (heap ?w2) (cached example_module) = Some \<lparr>conn = None, promise = None\<rparr>"
    by (simp add: lookup_def example_module_def)
  from failure_transparency[OF h1 h2] h3 h4
  have "\<exists>w3. step (Resume 1) ?w2 = Some w3 \<and> lookup (tasks w3) 1 = Some (Threw connection_refused)"
    by blast
  with h1 h2 show ?thesis by simp
qed

text \<open>
  C5. When \<^verbatim>\<open>process.env.MONGODB_URI\<close> is undefined or the empty string, evaluating the module
  throws an error whose message tells the operator to define the variable, before any other
  effect: the process state is as it was, so nothing has been connected, and there is no
  module whose \<^verbatim>\<open>connectDB\<close> could be called. With any non-empty URI the evaluation succeeds.
  The check is made there only: the synchronous part of a call of \<^verbatim>\<open>connectDB\<close> never throws.
\<close>

theorem missing_uri_is_startup_error:
  "module_init None w = (Inl (Error missing_uri_message), w) \<and>
   module_init (Some []) w = (Inl (Error missing_uri_message), w) \<and>
   missing_uri_message = ''Please define the MONGODB_URI environment variable inside .env.local'' \<and>
   fst (module_init (Some (a # u)) w) =
     Inr \<lparr>MONGODB_URI = a # u,
          cached = (case global_mongoose w of Some r \<Rightarrow> r | None \<Rightarrow> length (heap w))\<rparr> \<and>
   connectDB m w \<noteq> Some (Threw e, w')"
proof -
  have "connectDB m w \<noteq> Some (Threw e, w')"
    by (auto simp: connectDB_def mongoose_connect_def Let_def split: option.splits)
  then show ?thesis
    by (simp add: module_init_def missing_uri_message_def Let_def split: option.splits)
qed

theorem missing_uri_is_startup_error_witness:
  "module_init None fresh_process =
     (Inl (Error ''Please define the MONGODB_URI environment variable inside .env.local''),
      fresh_process) \<and>
   module_init (Some []) fresh_process =
     (Inl (Error ''Please define the MONGODB_URI environment variable inside .env.local''),
      fresh_process) \<and>
   connect_calls (snd (module_init None fresh_process)) = []"
  using missing_uri_is_startup_error[of fresh_process "CHR ''m''" "[]" example_module
      connection_refused fresh_process]
  by (simp add: fresh_process_def)


text \<open>
  C7. A call through a module that was evaluated with the URI \<open>uri\<close> invokes
  \<^verbatim>\<open>mongoose.connect\<close> exactly when the cache holds neither a handle nor a promise, and then
  once, with \<open>uri\<close> itself and the options \<^verbatim>\<open>{ bufferCommands: false }\<close>. In every other case the
  list of invocations is as it was.
\<close>

theorem connectDB_connect_arguments:
  assumes "module_init env w0 = (Inr m, w1)" and "step (Call m) w = Some w'"
  shows "\<exists>uri. env = Some uri \<and> uri \<noteq> [] \<and>
     connect_calls w' = connect_calls w @
       (case lookup (heap w) (cached m) of
          Some c \<Rightarrow> if conn c = None \<and> promise c = None
                    then [(uri, \<lparr>bufferCommands = False\<rparr>)] else []
        | None \<Rightarrow> [])"
proof -
  from assms(2) obtain t w2 where c: "connectDB m w = Some (t, w2)"
    and w': "w' = w2\<lparr>tasks := tasks w2 @ [t]\<rparr>"
    by (auto split: option.splits)
  from assms(1) have "env = Some (MONGODB_URI m)" "MONGODB_URI m \<noteq> []"
    by (cases rule: module_init_cases; simp)+
  with connectDB_connect_calls[OF c] w' show ?thesis by simp
qed

theorem connectDB_connect_arguments_witness:
  "module_init (Some example_uri) fresh_process = (Inr example_module, loaded) \<and>
   step (Call example_module) loaded =
     Some ((waiting Pending)\<lparr>tasks := [Suspended example_module 0]\<rparr>) \<and>
   connect_calls ((waiting Pending)\<lparr>tasks := [Suspended example_module 0]\<rparr>) =
     [(''mongodb://localhost:27017/techhub'', \<lparr>bufferCommands = False\<rparr>)]"
proof -
  have h1: "module_init (Some example_uri) fresh_process = (Inr example_module, loaded)"
    by (simp add: module_init_def fresh_process_def example_uri_def example_module_def loaded_def)
  have h2: "step (Call example_module) loaded =
      Some ((waiting Pending)\<lparr>tasks := [Suspended example_module 0]\<rparr>)"
    by (simp add: loaded_def waiting_def example_module_def connectDB_def mongoose_connect_def
        lookup_def)
  from connectDB_connect_arguments[OF h1 h2] h1 h2 show ?thesis
    by (simp add: loaded_def lookup_def example_uri_def example_module_def waiting_def)
qed

text \<open>
  C8. A call that resumes from a rejected attempt changes one field of the process state
  besides its own outcome: \<^verbatim>\<open>promise\<close> of its module's cache object becomes \<^verbatim>\<open>null\<close>. The
  \<^verbatim>\<open>conn\<close> field of that object and of every other cache object is as before, so it is still
  \<^verbatim>\<open>null\<close> when it was. The synchronous part of a call does not assign \<^verbatim>\<open>conn\<close> either, so
  a call that fails has never set the handle.
\<close>

theorem failed_attempt_frame:
  assumes "lookup (tasks w) t = Some (Suspended m p)"
    and "lookup (promises w) p = Some (Rejected e)"
    and "step (Resume t) w = Some w'"
  shows "\<exists>c. lookup (heap w) (cached m) = Some c \<and>
     w' = w\<lparr>heap := (heap w)[cached m := c\<lparr>promise := None\<rparr>], tasks := (tasks w)[t := Threw e]\<rparr> \<and>
     lookup (heap w') (cached m) = Some \<lparr>conn = conn c, promise = None\<rparr> \<and>
     map conn (heap w') = map conn (heap w) \<and>
     (conn c = None \<longrightarrow> lookup (heap w') (cached m) = Some \<lparr>conn = None, promise = None\<rparr>) \<and>
     (\<forall>m0 w0 tk0 w0'. connectDB m0 w0 = Some (tk0, w0') \<longrightarrow> map conn (heap w0') = map conn (heap w0))"
proof -
  from assms(3,1) obtain tk w1 where r: "connectDB_resume m p w = Some (tk, w1)"
    and w': "w' = w1\<lparr>tasks := (tasks w1)[t := tk]\<rparr>"
    by (auto split: option.splits)
  from r assms(2) obtain c where c: "lookup (heap w) (cached m) = Some c"
    and tk: "tk = Threw e" and w1: "w1 = w\<lparr>heap := (heap w)[cached m := c\<lparr>promise := None\<rparr>]\<rparr>"
    by (cases rule: connectDB_resume_cases) auto
  have "map conn ((heap w)[cached m := c\<lparr>promise := None\<rparr>]) = map conn (heap w)"
    using c by (auto simp: map_update list_update_same_conv dest: lookup_SomeD)
  moreover have "map conn (heap w0') = map conn (heap w0)"
    if "connectDB m0 w0 = Some (tk0, w0')" for m0 w0 tk0 w0'
    using that
    by (cases rule: connectDB_cases)
       (auto simp: map_update list_update_same_conv dest: lookup_SomeD)
  ultimately show ?thesis using c tk w1 w'
    by (auto simp: lookup_update dest: lookup_SomeD)
qed

theorem failed_attempt_frame_witness:
  "lookup (tasks (waiting (Rejected connection_refused))) 0 = Some (Suspended example_module 0) \<and>
   lookup (promises (waiting (Rejected connection_refused))) 0 = Some (Rejected connection_refused) \<and>
   step (Resume 0) (waiting (Rejected connection_refused)) =
     Some ((waiting (Rejected connection_refused))
       \<lparr>heap := [\<lparr>conn = None, promise = None\<rparr>],
        tasks := [Threw connection_refused, Suspended example_module 0]\<rparr>) \<and>
   map conn (heap ((waiting (Rejected connection_refused))
       \<lparr>heap := [\<lparr>conn = None, promise = None\<rparr>],
        tasks := [Threw connection_refused, Suspended example_module 0]\<rparr>)) =
     map conn (heap (waiting (Rejected connection_refused)))"
proof -
  let ?w = "waiting (Rejected connection_refused)"
  let ?w' = "?w\<lparr>heap := [\<lparr>conn = None, promise = None\<rparr>],
               tasks := [Threw connection_refused, Suspended example_module 0]\<rparr>"
  have h1: "lookup (tasks ?w) 0 = Some (Suspended example_module 0)"
    by (simp add: waiting_def lookup_def)
  have h2: "lookup (promises ?w) 0 = Some (Rejected connection_refused)"
    by (simp add: waiting_def lookup_def)
  have h3: "step (Resume 0) ?w = Some ?w'"
    by (simp add: waiting_def connectDB_resume_def lookup_def example_module_def)
  from failed_attempt_frame[OF h1 h2 h3] have "map conn (heap ?w') = map conn (heap ?w)"
    by blast
  with h1 h2 h3 show ?thesis by simp
qed

text \<open>
  C9. No step clears \<^verbatim>\<open>cached.promise\<close> except the failure path. When a cache object holds a
  promise \<open>p\<close>, after any event it still holds \<open>p\<close>, unless the event is the resumption of a
  call on this cache object whose awaited promise is rejected, the call being rejected with
  that error. In particular a call that resumes from a fulfilled promise leaves the field
  pointing at it.
\<close>

theorem promise_cleared_only_on_failure:
  assumes "step ev w = Some w'" and "lookup (heap w) r = Some c" and "promise c = Some p"
  shows "\<exists>c'. lookup (heap w') r = Some c' \<and>
     (promise c' = Some p \<or>
      promise c' = None \<and>
        (\<exists>t m q e. ev = Resume t \<and> lookup (tasks w) t = Some (Suspended m q) \<and> cached m = r \<and>
           lookup (promises w) q = Some (Rejected e) \<and> lookup (tasks w') t = Some (Threw e))) \<and>
     (\<forall>t m q v. ev = Resume t \<and> lookup (tasks w) t = Some (Suspended m q) \<and>
         lookup (promises w) q = Some (Fulfilled v) \<longrightarrow>
           promise c' = Some p \<and> lookup (promises w') q = Some (Fulfilled v))"
proof (cases ev)
  case (Call m)
  with assms(1) obtain tk w1 where c: "connectDB m w = Some (tk, w1)"
    and w': "w' = w1\<lparr>tasks := tasks w1 @ [tk]\<rparr>"
    by (auto split: option.splits)
  from c assms(2,3) have "lookup (heap w1) r = Some c"
    by (cases rule: connectDB_cases) (auto simp: lookup_update dest: lookup_SomeD)
  with w' assms(3) Call show ?thesis by simp
next
  case (Settle q x)
  with assms(1) have "heap w' = heap w" by (auto elim: settle_cases)
  with assms(2,3) Settle show ?thesis by simp
next
  case (Resume t)
  with assms(1) obtain m q tk w1 where t: "lookup (tasks w) t = Some (Suspended m q)"
    and r: "connectDB_resume m q w = Some (tk, w1)"
    and w': "w' = w1\<lparr>tasks := (tasks w1)[t := tk]\<rparr>"
    by (auto split: option.splits task.splits)
  from r show ?thesis
  proof (cases rule: connectDB_resume_cases)
    case (fulfilled c0 v)
    with assms(2,3) w' t Resume show ?thesis
      by (auto simp: lookup_update dest: lookup_SomeD)
  next
    case (rejected c0 e)
    with assms(2,3) w' t Resume show ?thesis
      by (auto simp: lookup_update dest: lookup_SomeD)
  qed
qed

theorem promise_cleared_only_on_failure_witness:
  "step (Resume 1) connected = Some (connected\<lparr>tasks := [Resolved (Some 7), Resolved (Some 7)]\<rparr>) \<and>
   lookup (heap connected) 0 = Some \<lparr>conn = Some 7, promise = Some 0\<rparr> \<and>
   lookup (promises connected) 0 = Some (Fulfilled 7) \<and>
   (\<exists>c'. lookup (heap (connected\<lparr>tasks := [Resolved (Some 7), Resolved (Some 7)]\<rparr>)) 0 = Some c' \<and>
      promise c' = Some 0)"
proof -
  let ?w' = "connected\<lparr>tasks := [Resolved (Some 7), Resolved (Some 7)]\<rparr>"
  have h1: "step (Resume 1) connected = Some ?w'"
    by (simp add: connected_def connectDB_resume_def lookup_def example_module_def)
  have h2: "lookup (heap connected) 0 = Some \<lparr>conn = Some 7, promise = Some 0\<rparr>"
    by (simp add: connected_def lookup_def)
  have h3: "promise \<lparr>conn = Some 7, promise = Some 0\<rparr> = Some 0" by simp
  have h4: "lookup (promises connected) 0 = Some (Fulfilled 7)"
    by (simp add: connected_def lookup_def)
  have t1: "lookup (tasks connected) 1 = Some (Suspended example_module 0)"
    by (simp add: connected_def lookup_def)
  from promise_cleared_only_on_failure[OF h1 h2 h3] t1 h4
  have "\<exists>c'. lookup (heap ?w') 0 = Some c' \<and> promise c' = Some 0"
    by auto
  with h1 h2 h4 show ?thesis by simp
qed

text \<open>
  C10. Whenever a step resolves a call of \<^verbatim>\<open>connectDB\<close>, by the early return or by resuming
  from a fulfilled promise, the value it resolves with is a handle, never \<^verbatim>\<open>null\<close>, and it is
  the handle that \<^verbatim>\<open>cached.conn\<close> of the call's module holds in the state the step leaves.
\<close>

theorem connectDB_result:
  assumes "step ev w = Some w'" and "lookup (tasks w') t = Some (Resolved x)"
    and "lookup (tasks w) t \<noteq> Some (Resolved x)"
  shows "\<exists>h m c. x = Some h \<and> lookup (heap w') (cached m) = Some c \<and> conn c = Some h \<and>
     (ev = Call m \<and> t = length (tasks w) \<or>
      (\<exists>p. ev = Resume t \<and> lookup (tasks w) t = Some (Suspended m p)))"
proof (cases ev)
  case (Call m)
  with assms(1) obtain tk w1 where c: "connectDB m w = Some (tk, w1)"
    and w': "w' = w1\<lparr>tasks := tasks w1 @ [tk]\<rparr>"
    by (auto split: option.splits)
  from c show ?thesis
  proof (cases rule: connectDB_cases)
    case (cached_handle c0 h)
    with assms(2,3) w' Call show ?thesis
      by (auto simp: lookup_def nth_append split: if_splits)
  next
    case (pending c0 p)
    with assms(2,3) w' show ?thesis
      by (auto simp: lookup_def nth_append split: if_splits)
  next
    case (connect c0)
    with assms(2,3) w' show ?thesis
      by (auto simp: lookup_def nth_append split: if_splits)
  qed
next
  case (Settle q y)
  with assms(1) have "tasks w' = tasks w" by (auto elim: settle_cases)
  with assms(2,3) show ?thesis by simp
next
  case (Resume u)
  with assms(1) obtain m q tk w1 where u: "lookup (tasks w) u = Some (Suspended m q)"
    and r: "connectDB_resume m q w = Some (tk, w1)"
    and w': "w' = w1\<lparr>tasks := (tasks w1)[u := tk]\<rparr>"
    by (auto split: option.splits task.splits)
  from r have tasks1: "tasks w1 = tasks w"
    by (cases rule: connectDB_resume_cases) auto
  have ut: "u = t"
  proof (rule ccontr)
    assume "u \<noteq> t"
    with assms(2) w' tasks1 have "lookup (tasks w) t = Some (Resolved x)"
      by (auto simp: lookup_update lookup_def split: if_splits)
    with assms(3) show False by simp
  qed
  from r show ?thesis
  proof (cases rule: connectDB_resume_cases)
    case (fulfilled c0 v)
    from assms(2) w' ut u fulfilled(3,4) have "x = Some v"
      by (auto simp: lookup_update dest: lookup_SomeD)
    moreover have "lookup (heap w') (cached m) = Some (c0\<lparr>conn := Some v\<rparr>)"
      using fulfilled(1,4) w' by (auto simp: lookup_update dest: lookup_SomeD)
    ultimately show ?thesis using ut u Resume by auto
  next
    case (rejected c0 e)
    with assms(2) w' ut u show ?thesis
      by (auto simp: lookup_update dest: lookup_SomeD)
  qed
qed

theorem connectDB_result_witness:
  "step (Resume 1) connected = Some (connected\<lparr>tasks := [Resolved (Some 7), Resolved (Some 7)]\<rparr>) \<and>
   lookup (tasks (connected\<lparr>tasks := [Resolved (Some 7), Resolved (Some 7)]\<rparr>)) 1 =
     Some (Resolved (Some 7)) \<and>
   lookup (tasks connected) 1 \<noteq> Some (Resolved (Some 7)) \<and>
   (\<exists>m c. lookup (heap (connected\<lparr>tasks := [Resolved (Some 7), Resolved (Some 7)]\<rparr>))
       (cached m) = Some c \<and> conn c = Some 7 \<and>
       lookup (tasks connected) 1 = Some (Suspended m 0))"
proof -
  let ?w' = "connected\<lparr>tasks := [Resolved (Some 7), Resolved (Some 7)]\<rparr>"
  have h1: "step (Resume 1) connected = Some ?w'"
    by (simp add: connected_def connectDB_resume_def lookup_def example_module_def)
  have h2: "lookup (tasks ?w') 1 = Some (Resolved (Some 7))"
    by (simp add: lookup_def)
  have h3: "lookup (tasks connected) 1 \<noteq> Some (Resolved (Some 7))"
    by (simp add: connected_def lookup_def)
  have t1: "lookup (tasks connected) 1 = Some (Suspended example_module 0)"
    by (simp add: connected_def lookup_def)
  from connectDB_result[OF h1 h2 h3] t1
  have "\<exists>m c. lookup (heap ?w') (cached m) = Some c \<and> conn c = Some 7 \<and>
       lookup (tasks connected) 1 = Some (Suspended m 0)"
    by auto
  with h1 h2 h3 show ?thesis by simp
qed

end
